theory Spec2Isabelle
  imports Main
begin

section \<open>The two checkpointing engines\<close>

text \<open>
  The repository holds two variants of the same consumer. The GraphQL variant
  (\<^verbatim>\<open>examples/advanced/common/graphql-never-miss-a-beat.js\<close>) resumes from an opaque
  cursor and saves it to \<^verbatim>\<open>last_cursor.txt\<close>; the block-height variant
  (\<^verbatim>\<open>examples/advanced/never-miss-a-beat.ts\<close>) resumes from a block number and keeps
  it in memory only. Functions of the first are prefixed \<open>gql_\<close>, those of the second
  \<open>bh_\<close>; what both files share word for word is defined once.

  Console output is not modelled. Fields of a message that are only ever printed
  (\<^verbatim>\<open>block.id\<close>, and in the GraphQL variant \<^verbatim>\<open>block.num\<close> and \<^verbatim>\<open>undo\<close>) are left out
  of the message types. \<^verbatim>\<open>writeFileSync\<close> is taken to succeed.
\<close>

subsection \<open>Exceptions and observable calls\<close>

text \<open>
  \<open>Error\<close> is the \<^verbatim>\<open>throw new Error(...)\<close> of \<^verbatim>\<open>ensureStream\<close>; \<open>ReferenceError\<close> is
  what JavaScript raises when an identifier that is bound nowhere is evaluated.
\<close>

datatype js_exception = Error string | ReferenceError string

text \<open>
  A handler returns the exception it threw, if any, together with the state it left
  behind: assignments made before a \<^verbatim>\<open>throw\<close> stay made.
\<close>

type_synonym 's outcome = "js_exception option \<times> 's"

text \<open>
  The calls that leave the engine, in the order they are made: an action pushed onto
  \<^verbatim>\<open>committedActions\<close> (the stand-in for a database write), \<^verbatim>\<open>stream.mark\<close>, and
  \<^verbatim>\<open>writeFileSync\<close> of the cursor file.
\<close>

datatype ('a, 'p) effect = Committed 'a | Marked 'p | Persisted 'p

subsection \<open>State\<close>

text \<open>
  \<open>stream\<close> is \<open>None\<close> while \<^verbatim>\<open>this.stream\<close> is unassigned; once assigned it holds the
  position last passed to \<^verbatim>\<open>mark\<close>, if any. \<open>history\<close> records the effects so far.
\<close>

record ('a, 'p) engine =
  pendingActions :: "'a list"
  committedActions :: "'a list"
  stream :: "'p option option"
  history :: "('a, 'p) effect list"

record ('a, 'p) gql_engine = "('a, 'p) engine" +
  last_cursor_file :: "'p option"

record 'a bh_engine = "('a, nat) engine" +
  lastCommittedBlockNum :: nat

subsection \<open>Code shared by both variants\<close>

definition ensureStream :: "('a, 'p, 'z) engine_scheme \<Rightarrow> js_exception + 'p option" where
  "ensureStream s =
     (case stream s of
        Some m \<Rightarrow> Inr m
      | None \<Rightarrow> Inl (Error ''Stream should be set at this runtime execution point''))"

text \<open>\<^verbatim>\<open>this.ensureStream().mark(...)\<close>\<close>

definition mark :: "'p \<Rightarrow> ('a, 'p, 'z) engine_scheme \<Rightarrow> ('a, 'p, 'z) engine_scheme outcome" where
  "mark p s =
     (case ensureStream s of
        Inl e \<Rightarrow> (Some e, s)
      | Inr _ \<Rightarrow> (None, s\<lparr>stream := Some (Some p), history := history s @ [Marked p]\<rparr>))"

text \<open>The position the stream resumes from on reconnection: the one marked last, if any.\<close>

definition marker :: "('a, 'p, 'z) engine_scheme \<Rightarrow> 'p option" where
  "marker s = (case stream s of None \<Rightarrow> None | Some m \<Rightarrow> m)"

text \<open>\<^verbatim>\<open>this.pendingActions.forEach((action) => this.committedActions.push(action))\<close>\<close>

definition pushPending :: "('a, 'p, 'z) engine_scheme \<Rightarrow> ('a, 'p, 'z) engine_scheme" where
  "pushPending s =
     s\<lparr>committedActions := committedActions s @ pendingActions s,
       history := history s @ map Committed (pendingActions s)\<rparr>"

subsection \<open>The GraphQL variant\<close>

definition writeFileSync :: "'p \<Rightarrow> ('a, 'p) gql_engine \<Rightarrow> ('a, 'p) gql_engine" where
  "writeFileSync cursor s =
     s\<lparr>last_cursor_file := Some cursor, history := history s @ [Persisted cursor]\<rparr>"

definition gql_commit :: "'p \<Rightarrow> ('a, 'p) gql_engine \<Rightarrow> ('a, 'p) gql_engine outcome" where
  "gql_commit cursor s =
     (let s1 = (if length (pendingActions s) > 0
                then (pushPending s)\<lparr>pendingActions := []\<rparr> else s)
      in case mark cursor s1 of
           (Some e, s2) \<Rightarrow> (Some e, s2)
         | (None, s2) \<Rightarrow> (None, writeFileSync cursor s2))"

definition gql_onProgress :: "'p \<Rightarrow> ('a, 'p) gql_engine \<Rightarrow> ('a, 'p) gql_engine outcome" where
  "gql_onProgress cursor s = gql_commit cursor s"

text \<open>
  The payload of a \<^verbatim>\<open>data\<close> message: \<^verbatim>\<open>searchTransactionsForward.cursor\<close> and, when
  \<^verbatim>\<open>trace\<close> is set, the \<^verbatim>\<open>json\<close> of each of its \<^verbatim>\<open>matchingActions\<close>.
\<close>

record ('a, 'p) searchTransactionsForward =
  cursor :: 'p
  trace :: "'a list option"

definition gql_onResult ::
  "('a, 'p) searchTransactionsForward \<Rightarrow> ('a, 'p) gql_engine \<Rightarrow> ('a, 'p) gql_engine outcome" where
  "gql_onResult data s =
     (case trace data of
        None \<Rightarrow> gql_onProgress (cursor data) s
      | Some matchingActions \<Rightarrow>
          gql_commit (cursor data) (s\<lparr>pendingActions := pendingActions s @ matchingActions\<rparr>))"

text \<open>
  The identifiers in scope inside \<^verbatim>\<open>onError\<close>: its parameters, the bindings of the
  module, those of the Node module wrapper, and the globals the file sets or uses.
\<close>

definition onError_scope :: "string list" where
  "onError_scope =
     [''errors'', ''terminal'',
      ''runMain'', ''createDfuseClient'', ''writeFileSync'', ''readFileSync'', ''existsSync'',
      ''path'', ''LAST_CURSOR_FILENAME'', ''main'', ''Engine'', ''printBlock'',
      ''require'', ''module'', ''exports'', ''__dirname'', ''__filename'',
      ''global'', ''process'', ''console'', ''JSON'', ''fetch'', ''WebSocket'', ''undefined'']"

definition resolve :: "string list \<Rightarrow> string \<Rightarrow> js_exception option" where
  "resolve scope x = (if x \<in> set scope then None else Some (ReferenceError x))"

text \<open>Identifiers are resolved in the order they are evaluated; the first one unbound throws.\<close>

fun resolve_all :: "string list \<Rightarrow> string list \<Rightarrow> js_exception option" where
  "resolve_all scope [] = None"
| "resolve_all scope (x # xs) =
     (case resolve scope x of Some e \<Rightarrow> Some e | None \<Rightarrow> resolve_all scope xs)"

text \<open>
  \<^verbatim>\<open>console.log("...", JSON.stringify(errors, nil, "  "))\<close>: the callee and the
  arguments are evaluated before either call is made, in the order \<^verbatim>\<open>console\<close>,
  \<^verbatim>\<open>JSON\<close>, \<^verbatim>\<open>errors\<close>, \<^verbatim>\<open>nil\<close>. What follows, with or without \<^verbatim>\<open>terminal\<close>, only
  prints.
\<close>

definition gql_onError :: "'e \<Rightarrow> bool \<Rightarrow> ('a, 'p) gql_engine \<Rightarrow> ('a, 'p) gql_engine outcome" where
  "gql_onError errors terminal s =
     (case resolve_all onError_scope [''console'', ''JSON'', ''errors'', ''nil''] of
        Some e \<Rightarrow> (Some e, s)
      | None \<Rightarrow> (None, s))"

definition gql_onComplete :: "('a, 'p) gql_engine \<Rightarrow> ('a, 'p) gql_engine outcome" where
  "gql_onComplete s = (None, s)"

datatype ('a, 'p, 'e) message =
  DataMessage "('a, 'p) searchTransactionsForward"
| ErrorMessage 'e bool
| CompleteMessage

text \<open>The callback handed to \<^verbatim>\<open>client.graphql\<close>.\<close>

fun gql_onMessage ::
  "('a, 'p, 'e) message \<Rightarrow> ('a, 'p) gql_engine \<Rightarrow> ('a, 'p) gql_engine outcome" where
  "gql_onMessage (DataMessage data) s = gql_onResult data s"
| "gql_onMessage (ErrorMessage errors terminal) s = gql_onError errors terminal s"
| "gql_onMessage CompleteMessage s = gql_onComplete s"

definition gql_onPostRestart :: "('a, 'p) gql_engine \<Rightarrow> ('a, 'p) gql_engine" where
  "gql_onPostRestart s = s\<lparr>pendingActions := []\<rparr>"

text \<open>
  The engine as the constructor leaves it, with the cursor file as found on disk, and
  as \<^verbatim>\<open>run\<close> leaves it once \<^verbatim>\<open>this.stream\<close> is assigned.
\<close>

definition gql_new :: "'p option \<Rightarrow> ('a, 'p) gql_engine" where
  "gql_new file =
     \<lparr>pendingActions = [], committedActions = [], stream = None, history = [],
      last_cursor_file = file\<rparr>"

definition gql_started :: "'p option \<Rightarrow> ('a, 'p) gql_engine" where
  "gql_started file = (gql_new file)\<lparr>stream := Some None\<rparr>"

subsection \<open>The block-height variant\<close>

definition bh_commit :: "nat \<Rightarrow> 'a bh_engine \<Rightarrow> 'a bh_engine outcome" where
  "bh_commit blockNum s =
     (let s1 = (if length (pendingActions s) > 0 then pushPending s else s);
          s2 = s1\<lparr>pendingActions := [], lastCommittedBlockNum := blockNum\<rparr>
      in mark blockNum s2)"

definition bh_onListening :: "'a bh_engine \<Rightarrow> 'a bh_engine outcome" where
  "bh_onListening s = (None, s)"

definition bh_onProgress :: "nat \<Rightarrow> 'a bh_engine \<Rightarrow> 'a bh_engine outcome" where
  "bh_onProgress block_num s = bh_commit block_num s"

text \<open>
  \<open>act\<close> is \<^verbatim>\<open>message.data.trace.act\<close>. When \<^verbatim>\<open>commit\<close> throws, the push is not
  reached.
\<close>

definition bh_onAction :: "nat \<Rightarrow> 'a \<Rightarrow> 'a bh_engine \<Rightarrow> 'a bh_engine outcome" where
  "bh_onAction block_num act s =
     (case (if block_num > lastCommittedBlockNum s then bh_commit block_num s else (None, s)) of
        (Some e, s1) \<Rightarrow> (Some e, s1)
      | (None, s1) \<Rightarrow> (None, s1\<lparr>pendingActions := pendingActions s1 @ [act]\<rparr>))"

definition flushPending :: "'a bh_engine \<Rightarrow> 'a bh_engine" where
  "flushPending s = s\<lparr>pendingActions := []\<rparr>"

definition bh_onPostRestart :: "'a bh_engine \<Rightarrow> 'a bh_engine" where
  "bh_onPostRestart s = flushPending s"

definition bh_new :: "'a bh_engine" where
  "bh_new =
     \<lparr>pendingActions = [], committedActions = [], stream = None, history = [],
      lastCommittedBlockNum = 0\<rparr>"

text \<open>
  The engine once \<^verbatim>\<open>start\<close> has assigned \<^verbatim>\<open>this.stream\<close>; nothing else has changed
  since the constructor.
\<close>

definition bh_started :: "'a bh_engine" where
  "bh_started =
     \<lparr>pendingActions = [], committedActions = [], stream = Some None, history = [],
      lastCommittedBlockNum = 0\<rparr>"

section \<open>Sequences of handler invocations\<close>

text \<open>
  The transport calls the engine: the message callback for each inbound message, and
  \<^verbatim>\<open>onPostRestart\<close> after each reconnection. An exception thrown by a handler goes to
  that caller; the engine object keeps no record of it, so the next call finds the
  state the throw left behind.
\<close>

datatype 'm call = OnMessage 'm | OnPostRestart

fun gql_step ::
  "('a, 'p, 'e) message call \<Rightarrow> ('a, 'p) gql_engine \<Rightarrow> ('a, 'p) gql_engine outcome" where
  "gql_step (OnMessage m) s = gql_onMessage m s"
| "gql_step OnPostRestart s = (None, gql_onPostRestart s)"

primrec gql_run ::
  "('a, 'p, 'e) message call list \<Rightarrow> ('a, 'p) gql_engine \<Rightarrow> ('a, 'p) gql_engine" where
  "gql_run [] s = s"
| "gql_run (c # cs) s = gql_run cs (snd (gql_step c s))"

text \<open>
  The messages the block-height variant registers a handler for with
  \<^verbatim>\<open>dynamicMessageDispatcher\<close>: \<^verbatim>\<open>listening\<close>, \<^verbatim>\<open>action_trace\<close> (with
  \<^verbatim>\<open>data.block_num\<close> and \<^verbatim>\<open>data.trace.act\<close>) and \<^verbatim>\<open>progress\<close> (with
  \<^verbatim>\<open>data.block_num\<close>).
\<close>

datatype 'a inbound = Listening | ActionTrace nat 'a | Progress nat

fun bh_dispatch :: "'a inbound \<Rightarrow> 'a bh_engine \<Rightarrow> 'a bh_engine outcome" where
  "bh_dispatch Listening s = bh_onListening s"
| "bh_dispatch (ActionTrace block_num act) s = bh_onAction block_num act s"
| "bh_dispatch (Progress block_num) s = bh_onProgress block_num s"

fun bh_step :: "'a inbound call \<Rightarrow> 'a bh_engine \<Rightarrow> 'a bh_engine outcome" where
  "bh_step (OnMessage m) s = bh_dispatch m s"
| "bh_step OnPostRestart s = (None, bh_onPostRestart s)"

primrec bh_run :: "'a inbound call list \<Rightarrow> 'a bh_engine \<Rightarrow> 'a bh_engine" where
  "bh_run [] s = s"
| "bh_run (c # cs) s = bh_run cs (snd (bh_step c s))"

subsection \<open>Payloads that carry their position\<close>



fun bh_tagged_call :: "(nat \<times> 'b) inbound call \<Rightarrow> bool" where
  "bh_tagged_call (OnMessage (ActionTrace block_num act)) = (fst act = block_num)"
| "bh_tagged_call _ = True"

definition bh_tagged :: "(nat \<times> 'b) inbound call list \<Rightarrow> bool" where
  "bh_tagged calls = list_all bh_tagged_call calls"






subsection \<open>Two properties of a history\<close>


text \<open>
  \<open>sink_behind\<close> remembers the positions of all payloads sunk so far and holds when
  each position marked or persisted is at or after every one of them.
\<close>

fun sink_behind :: "'p::linorder list \<Rightarrow> ('p \<times> 'b, 'p) effect list \<Rightarrow> bool" where
  "sink_behind sunk [] = True"
| "sink_behind sunk (Committed a # h) = sink_behind (fst a # sunk) h"
| "sink_behind sunk (Marked p # h) = (list_all (\<lambda>q. q \<le> p) sunk \<and> sink_behind sunk h)"
| "sink_behind sunk (Persisted p # h) = (list_all (\<lambda>q. q \<le> p) sunk \<and> sink_behind sunk h)"

text \<open>
  The positions of the payloads a history has sunk, and of those an engine has sunk or
  still holds pending.
\<close>

fun sunk_positions :: "('p \<times> 'b, 'p) effect list \<Rightarrow> 'p list" where
  "sunk_positions [] = []"
| "sunk_positions (Committed a # h) = fst a # sunk_positions h"
| "sunk_positions (_ # h) = sunk_positions h"


text \<open>
  \<open>mark_behind\<close> holds when no payload sunk after a position was marked or persisted
  occurred before that position: the engine has not marked past a payload it had yet
  to sink.
\<close>

fun mark_behind :: "('p::linorder \<times> 'b, 'p) effect list \<Rightarrow> bool" where
  "mark_behind [] = True"
| "mark_behind (Committed a # h) = mark_behind h"
| "mark_behind (Marked p # h) = (list_all (\<lambda>q. p \<le> q) (sunk_positions h) \<and> mark_behind h)"
| "mark_behind (Persisted p # h) = (list_all (\<lambda>q. p \<le> q) (sunk_positions h) \<and> mark_behind h)"

text \<open>
  The positions a history has marked or persisted; and the condition that none of
  them is after a pending payload or after a position still to arrive.
\<close>

fun marked_positions :: "('a, 'p) effect list \<Rightarrow> 'p list" where
  "marked_positions [] = []"
| "marked_positions (Committed a # h) = marked_positions h"
| "marked_positions (Marked p # h) = p # marked_positions h"
| "marked_positions (Persisted p # h) = p # marked_positions h"


subsection \<open>The order of a commit as the specification words it\<close>

text \<open>
  Sink the pending payloads in arrival order, then persist the position, then mark it.
\<close>

definition spec_commit_effects :: "'a list \<Rightarrow> 'p \<Rightarrow> ('a, 'p) effect list" where
  "spec_commit_effects pending position =
     map Committed pending @ [Persisted position, Marked position]"

section \<open>The transport\<close>

text \<open>
  Modelled from the spec: the transport (the \<^verbatim>\<open>@dfuse/client\<close> stream, which is not
  among the sources). It delivers the events of a finite source in order, and between
  any two deliveries it may reconnect.
\<close>

datatype transport_step = Deliver | Reconnect

text \<open>
  Modelled from the spec: where the transport resumes after a reconnection. It
  redelivers \<^emph>\<open>inclusively\<close> from the last marked position, that is from the first
  event of the source that is not before the mark, and from the start of the source
  when nothing was marked.
\<close>

definition resume_from :: "('d \<Rightarrow> 'p::linorder) \<Rightarrow> 'p option \<Rightarrow> 'd list \<Rightarrow> 'd list" where
  "resume_from pos m source =
     (case m of None \<Rightarrow> source | Some p \<Rightarrow> dropWhile (\<lambda>d. pos d < p) source)"

text \<open>
  Modelled from the spec: a session of the transport with the GraphQL variant. The
  state is the events still to be delivered and the engine. A delivery hands the next
  event to \<^verbatim>\<open>onResult\<close>, as the message callback does for a \<^verbatim>\<open>data\<close> message, and
  does nothing when no event is left; a reconnection calls the reconnect hook and
  resumes from the mark.
\<close>

fun gql_session ::
  "transport_step list \<Rightarrow> ('a, 'p::linorder) searchTransactionsForward list \<Rightarrow>
   ('a, 'p) searchTransactionsForward list \<times> ('a, 'p) gql_engine \<Rightarrow>
   ('a, 'p) searchTransactionsForward list \<times> ('a, 'p) gql_engine" where
  "gql_session [] source (r, s) = (r, s)"
| "gql_session (Deliver # ts) source ([], s) = gql_session ts source ([], s)"
| "gql_session (Deliver # ts) source (d # r, s) =
     gql_session ts source (r, snd (gql_onResult d s))"
| "gql_session (Reconnect # ts) source (r, s) =
     gql_session ts source (resume_from cursor (marker s) source, gql_onPostRestart s)"

text \<open>Modelled from the spec: the transport delivers all that is left, uninterrupted.\<close>

primrec gql_deliver_all ::
  "('a, 'p) searchTransactionsForward list \<Rightarrow> ('a, 'p) gql_engine \<Rightarrow> ('a, 'p) gql_engine" where
  "gql_deliver_all [] s = s"
| "gql_deliver_all (d # r) s = gql_deliver_all r (snd (gql_onResult d s))"

text \<open>
  Modelled from the spec: a whole run, from the started engine with no stored
  position. The reconnections happen where \<open>steps\<close> places them, and after the last
  of them the rest of the source arrives.
\<close>

definition gql_consume ::
  "transport_step list \<Rightarrow> ('a, 'p::linorder) searchTransactionsForward list \<Rightarrow>
   ('a, 'p) gql_engine" where
  "gql_consume steps source =
     (case gql_session steps source (source, gql_started None) of
        (r, s) \<Rightarrow> gql_deliver_all r s)"

text \<open>
  Modelled from the spec: a session of the transport with the block-height variant,
  whose source is a list of actions, each with the number of its block; a delivery
  hands the next one to \<^verbatim>\<open>onAction\<close>.
\<close>

fun bh_session ::
  "transport_step list \<Rightarrow> (nat \<times> 'a) list \<Rightarrow>
   (nat \<times> 'a) list \<times> 'a bh_engine \<Rightarrow> (nat \<times> 'a) list \<times> 'a bh_engine" where
  "bh_session [] source (r, s) = (r, s)"
| "bh_session (Deliver # ts) source ([], s) = bh_session ts source ([], s)"
| "bh_session (Deliver # ts) source (d # r, s) =
     bh_session ts source (r, snd (bh_onAction (fst d) (snd d) s))"
| "bh_session (Reconnect # ts) source (r, s) =
     bh_session ts source (resume_from fst (marker s) source, bh_onPostRestart s)"

text \<open>Modelled from the spec: the transport delivers all that is left, uninterrupted.\<close>

primrec bh_deliver_all :: "(nat \<times> 'a) list \<Rightarrow> 'a bh_engine \<Rightarrow> 'a bh_engine" where
  "bh_deliver_all [] s = s"
| "bh_deliver_all (d # r) s = bh_deliver_all r (snd (bh_onAction (fst d) (snd d) s))"

text \<open>Modelled from the spec: a whole run of the block-height variant.\<close>

definition bh_consume :: "transport_step list \<Rightarrow> (nat \<times> 'a) list \<Rightarrow> 'a bh_engine" where
  "bh_consume steps source =
     (case bh_session steps source (source, bh_started) of
        (r, s) \<Rightarrow> bh_deliver_all r s)"

text \<open>The payloads a source delivers when nothing interrupts it.\<close>

definition gql_payloads :: "('a, 'p) searchTransactionsForward list \<Rightarrow> 'a list" where
  "gql_payloads source =
     concat (map (\<lambda>d. case trace d of None \<Rightarrow> [] | Some acts \<Rightarrow> acts) source)"

definition bh_payloads :: "(nat \<times> 'a) list \<Rightarrow> 'a list" where
  "bh_payloads source = map snd source"

subsection \<open>What a session keeps true\<close>

text \<open>
  At every point of a session the source splits into what has been delivered since
  the last resumption and what is still to come. In the GraphQL variant nothing is
  pending between two deliveries, every delivered payload is in the sink, and so is
  every payload that lies before the marked position. In the block-height variant a
  delivered payload is in the sink or pending, and every payload that lies before the
  marked position is in the sink. Nothing is in either place that the source does not
  hold.
\<close>

definition gql_session_inv ::
  "('a, 'p::linorder) searchTransactionsForward list \<Rightarrow>
   ('a, 'p) searchTransactionsForward list \<Rightarrow> ('a, 'p) gql_engine \<Rightarrow> bool" where
  "gql_session_inv source r s \<longleftrightarrow>
     stream s \<noteq> None \<and> pendingActions s = []
     \<and> (\<exists>del. source = del @ r \<and> set (gql_payloads del) \<subseteq> set (committedActions s))
     \<and> set (committedActions s) \<subseteq> set (gql_payloads source)
     \<and> (case marker s of
          None \<Rightarrow> True
        | Some p \<Rightarrow>
            set (gql_payloads (takeWhile (\<lambda>d. cursor d < p) source))
              \<subseteq> set (committedActions s))"

definition bh_session_inv ::
  "(nat \<times> 'a) list \<Rightarrow> (nat \<times> 'a) list \<Rightarrow> 'a bh_engine \<Rightarrow> bool" where
  "bh_session_inv source r s \<longleftrightarrow>
     stream s \<noteq> None
     \<and> (\<exists>del. source = del @ r
            \<and> set (bh_payloads del) \<subseteq> set (committedActions s) \<union> set (pendingActions s))
     \<and> set (committedActions s) \<union> set (pendingActions s) \<subseteq> set (bh_payloads source)
     \<and> (case marker s of
          None \<Rightarrow> True
        | Some p \<Rightarrow>
            set (bh_payloads (takeWhile (\<lambda>d. fst d < p) source))
              \<subseteq> set (committedActions s))"

text \<open>
  When the source is sorted by block number, a session of the block-height variant
  keeps more: the sink holds, in source order and once each, the actions of all blocks
  before the last committed one; the pending buffer holds the actions of the last
  committed block delivered since the last resumption; what is still to come is not
  before that block; and the mark, once set, is that block.
\<close>

definition bh_ordered_inv ::
  "(nat \<times> 'a) list \<Rightarrow> (nat \<times> 'a) list \<Rightarrow> 'a bh_engine \<Rightarrow> bool" where
  "bh_ordered_inv source r s \<longleftrightarrow>
     stream s \<noteq> None
     \<and> (\<exists>del. source = del @ r
            \<and> pendingActions s
                = bh_payloads (filter (\<lambda>d. fst d = lastCommittedBlockNum s) del)
            \<and> list_all (\<lambda>d. fst d \<le> lastCommittedBlockNum s) del)
     \<and> list_all (\<lambda>d. lastCommittedBlockNum s \<le> fst d) r
     \<and> committedActions s
          = bh_payloads (filter (\<lambda>d. fst d < lastCommittedBlockNum s) source)
     \<and> (marker s = None \<and> lastCommittedBlockNum s = 0
          \<or> marker s = Some (lastCommittedBlockNum s))
     \<and> (lastCommittedBlockNum s = 0 \<or> lastCommittedBlockNum s \<in> fst ` set source)"

section \<open>What a commit does\<close>

lemma gql_commit_assigned:
  "stream s = Some m \<Longrightarrow>
   gql_commit c s =
     (None, s\<lparr>pendingActions := [],
              committedActions := committedActions s @ pendingActions s,
              stream := Some (Some c),
              history := history s @ map Committed (pendingActions s) @ [Marked c, Persisted c],
              last_cursor_file := Some c\<rparr>)"
  by (cases "pendingActions s")
     (simp_all add: gql_commit_def mark_def ensureStream_def pushPending_def writeFileSync_def)

lemma gql_commit_unassigned:
  "stream s = None \<Longrightarrow>
   gql_commit c s =
     (Some (Error ''Stream should be set at this runtime execution point''),
      s\<lparr>pendingActions := [],
        committedActions := committedActions s @ pendingActions s,
        history := history s @ map Committed (pendingActions s)\<rparr>)"
  by (cases "pendingActions s")
     (simp_all add: gql_commit_def mark_def ensureStream_def pushPending_def writeFileSync_def)

lemma bh_commit_assigned:
  "stream s = Some m \<Longrightarrow>
   bh_commit b s =
     (None, s\<lparr>pendingActions := [],
              committedActions := committedActions s @ pendingActions s,
              stream := Some (Some b),
              history := history s @ map Committed (pendingActions s) @ [Marked b],
              lastCommittedBlockNum := b\<rparr>)"
  by (cases "pendingActions s")
     (simp_all add: bh_commit_def mark_def ensureStream_def pushPending_def)

lemma bh_commit_unassigned:
  "stream s = None \<Longrightarrow>
   bh_commit b s =
     (Some (Error ''Stream should be set at this runtime execution point''),
      s\<lparr>pendingActions := [],
        committedActions := committedActions s @ pendingActions s,
        history := history s @ map Committed (pendingActions s),
        lastCommittedBlockNum := b\<rparr>)"
  by (cases "pendingActions s")
     (simp_all add: bh_commit_def mark_def ensureStream_def pushPending_def)

lemma started_simps:
  "pendingActions (gql_started f) = []" "committedActions (gql_started f) = []"
  "stream (gql_started f) = Some None" "history (gql_started f) = []"
  "last_cursor_file (gql_started f) = f"
  "pendingActions bh_started = []" "committedActions bh_started = []"
  "stream bh_started = Some None" "history bh_started = []"
  "lastCommittedBlockNum bh_started = 0"
  by (simp_all add: gql_started_def gql_new_def bh_started_def bh_new_def)

lemma gql_onError_state: "snd (gql_onError errors terminal s) = s"
  by (simp add: gql_onError_def resolve_def onError_scope_def)

text \<open>
  C3. The claim orders a commit as: sink and clear, persist, mark, update the last
  committed position. Neither variant does that. The GraphQL variant sinks the pending
  payloads in arrival order and clears the buffer, then marks, and persists last; it
  has no last committed position. The block-height variant sinks, clears, sets
  \<^verbatim>\<open>lastCommittedBlockNum\<close>, and marks last; it persists nothing. When
  \<^verbatim>\<open>this.stream\<close> is unassigned, \<^verbatim>\<open>ensureStream\<close> throws and what comes after the
  throw is not done.
\<close>

theorem commit_order:
  "gql_commit position s =
     (if stream s = None
      then (Some (Error ''Stream should be set at this runtime execution point''),
            s\<lparr>pendingActions := [],
              committedActions := committedActions s @ pendingActions s,
              history := history s @ map Committed (pendingActions s)\<rparr>)
      else (None,
            s\<lparr>pendingActions := [],
              committedActions := committedActions s @ pendingActions s,
              stream := Some (Some position),
              history := history s @ map Committed (pendingActions s)
                           @ [Marked position, Persisted position],
              last_cursor_file := Some position\<rparr>))
   \<and> bh_commit blockNum t =
     (if stream t = None
      then (Some (Error ''Stream should be set at this runtime execution point''),
            t\<lparr>pendingActions := [],
              committedActions := committedActions t @ pendingActions t,
              history := history t @ map Committed (pendingActions t),
              lastCommittedBlockNum := blockNum\<rparr>)
      else (None,
            t\<lparr>pendingActions := [],
              committedActions := committedActions t @ pendingActions t,
              stream := Some (Some blockNum),
              history := history t @ map Committed (pendingActions t) @ [Marked blockNum],
              lastCommittedBlockNum := blockNum\<rparr>))"
  by (auto simp: gql_commit_assigned gql_commit_unassigned bh_commit_assigned
        bh_commit_unassigned)

text \<open>
  With \<^verbatim>\<open>T1\<close> pending, a commit at position 6 marks before it persists in the GraphQL
  variant and never persists in the block-height variant: neither history is the one
  the specification words.
\<close>

theorem commit_order_counterexample:
  "history (snd (gql_commit (6::nat)
       ((gql_started None)\<lparr>pendingActions := [''T1'']\<rparr>)))
     = [Committed ''T1'', Marked 6, Persisted 6]
   \<and> history (snd (gql_commit (6::nat)
       ((gql_started None)\<lparr>pendingActions := [''T1'']\<rparr>)))
     \<noteq> spec_commit_effects [''T1''] 6
   \<and> history (snd (bh_commit 6 (bh_started\<lparr>pendingActions := [''T1'']\<rparr>)))
     = [Committed ''T1'', Marked 6]
   \<and> history (snd (bh_commit 6 (bh_started\<lparr>pendingActions := [''T1'']\<rparr>)))
     \<noteq> spec_commit_effects [''T1''] 6"
  by (simp add: gql_commit_assigned [where m = None] bh_commit_assigned [where m = None]
        started_simps spec_commit_effects_def)

section \<open>Progress events\<close>

text \<open>
  C5. The claim has every Progress event persist its position. The block-height variant
  has no cursor store. What holds: with the stream assigned, a Progress event at \<open>P\<close>
  commits whatever is pending (nothing, when the buffer is empty) and marks the
  transport at \<open>P\<close>; the GraphQL variant, where a Progress event is a data message
  without a trace, then writes \<open>P\<close> to the cursor file; the block-height variant
  records \<open>P\<close> as \<^verbatim>\<open>lastCommittedBlockNum\<close> and persists nothing.
\<close>

theorem progress_commits:
  assumes "stream s \<noteq> None" and "stream t \<noteq> None"
  shows "gql_onResult \<lparr>cursor = P, trace = None\<rparr> s = gql_onProgress P s
     \<and> fst (gql_onProgress P s) = None
     \<and> marker (snd (gql_onProgress P s)) = Some P
     \<and> last_cursor_file (snd (gql_onProgress P s)) = Some P
     \<and> history (snd (gql_onProgress P s))
         = history s @ map Committed (pendingActions s) @ [Marked P, Persisted P]
     \<and> fst (bh_onProgress B t) = None
     \<and> marker (snd (bh_onProgress B t)) = Some B
     \<and> lastCommittedBlockNum (snd (bh_onProgress B t)) = B
     \<and> history (snd (bh_onProgress B t))
         = history t @ map Committed (pendingActions t) @ [Marked B]"
proof -
  from assms obtain m n where "stream s = Some m" and "stream t = Some n"
    by auto
  then show ?thesis
    by (simp add: gql_onResult_def gql_onProgress_def bh_onProgress_def marker_def
          gql_commit_assigned bh_commit_assigned)
qed

text \<open>The empty pending buffer, at position 7.\<close>

theorem progress_commits_witness:
  "stream (gql_started None :: (string, nat) gql_engine) \<noteq> None
   \<and> stream (bh_started :: string bh_engine) \<noteq> None
   \<and> pendingActions (gql_started None :: (string, nat) gql_engine) = []
   \<and> last_cursor_file (snd (gql_onProgress 7 (gql_started None :: (string, nat) gql_engine)))
       = Some 7
   \<and> history (snd (gql_onProgress 7 (gql_started None :: (string, nat) gql_engine)))
       = [Marked 7, Persisted 7]
   \<and> lastCommittedBlockNum (snd (bh_onProgress 7 (bh_started :: string bh_engine))) = 7"
  using progress_commits [of "gql_started None :: (string, nat) gql_engine"
      "bh_started :: string bh_engine" 7 7]
  by (simp add: started_simps)

theorem progress_not_persisted_counterexample:
  "history (snd (bh_onProgress 7 (bh_started :: string bh_engine))) = [Marked 7]
   \<and> Persisted 7 \<notin> set (history (snd (bh_onProgress 7 (bh_started :: string bh_engine))))"
  by (simp add: bh_onProgress_def bh_commit_assigned [where m = None] started_simps)

section \<open>Data events\<close>

text \<open>
  C6. The claim has every Data event appended to the pending buffer before any commit
  it causes. The GraphQL variant does so: the payloads of the event are appended and
  the commit that follows sinks them with everything pending. The block-height variant
  does the reverse: when the block of the action is ahead of the last committed block
  it commits first and appends afterwards, so the action that caused the commit is
  not part of it and is the only one pending; otherwise it appends and does not
  commit. (Stream assigned in both.)
\<close>

theorem data_append_and_commit:
  assumes "stream s \<noteq> None" and "stream t \<noteq> None"
  shows "gql_onResult \<lparr>cursor = c, trace = Some acts\<rparr> s
         = gql_commit c (s\<lparr>pendingActions := pendingActions s @ acts\<rparr>)
     \<and> fst (gql_onResult \<lparr>cursor = c, trace = Some acts\<rparr> s) = None
     \<and> pendingActions (snd (gql_onResult \<lparr>cursor = c, trace = Some acts\<rparr> s)) = []
     \<and> committedActions (snd (gql_onResult \<lparr>cursor = c, trace = Some acts\<rparr> s))
         = committedActions s @ pendingActions s @ acts
     \<and> history (snd (gql_onResult \<lparr>cursor = c, trace = Some acts\<rparr> s))
         = history s @ map Committed (pendingActions s @ acts) @ [Marked c, Persisted c]
     \<and> bh_onAction block_num act t =
         (None,
          if block_num > lastCommittedBlockNum t
          then t\<lparr>pendingActions := [act],
                 committedActions := committedActions t @ pendingActions t,
                 stream := Some (Some block_num),
                 history := history t @ map Committed (pendingActions t) @ [Marked block_num],
                 lastCommittedBlockNum := block_num\<rparr>
          else t\<lparr>pendingActions := pendingActions t @ [act]\<rparr>)"
proof -
  from assms obtain m n where "stream s = Some m" and "stream t = Some n"
    by auto
  then show ?thesis
    by (simp add: gql_onResult_def bh_onAction_def gql_commit_assigned bh_commit_assigned)
qed

theorem data_append_and_commit_witness:
  "stream (gql_started None :: (string, nat) gql_engine) \<noteq> None
   \<and> stream (bh_started :: string bh_engine) \<noteq> None
   \<and> committedActions (snd (gql_onResult \<lparr>cursor = 5::nat, trace = Some [''T1'']\<rparr>
         (gql_started None))) = [''T1'']
   \<and> bh_onAction 5 ''T1'' bh_started
       = (None, \<lparr>pendingActions = [''T1''], committedActions = [], stream = Some (Some 5),
                 history = [Marked 5], lastCommittedBlockNum = 5\<rparr>)"
  using data_append_and_commit [of "gql_started None :: (string, nat) gql_engine"
      "bh_started :: string bh_engine" 5 "[''T1'']" 5 "''T1''"]
  by (simp add: started_simps bh_started_def bh_new_def gql_commit_assigned [where m = None])

text \<open>
  In the block-height variant the commit caused by \<^verbatim>\<open>T2\<close> at block 6 sinks \<^verbatim>\<open>T1\<close> and
  leaves \<^verbatim>\<open>T2\<close> pending.
\<close>

theorem data_commit_excludes_event_counterexample:
  "bh_run [OnMessage (ActionTrace 5 ''T1''), OnMessage (ActionTrace 6 ''T2'')] bh_started
     = \<lparr>pendingActions = [''T2''], committedActions = [''T1''], stream = Some (Some 6),
        history = [Marked 5, Committed ''T1'', Marked 6], lastCommittedBlockNum = 6\<rparr>
   \<and> ''T2'' \<notin> set (committedActions
        (bh_run [OnMessage (ActionTrace 5 ''T1''), OnMessage (ActionTrace 6 ''T2'')]
           bh_started))"
  by (simp add: bh_onAction_def bh_commit_assigned [where m = None]
        bh_commit_assigned [where m = "Some 5"] bh_started_def bh_new_def)

text \<open>
  C7. From a started engine with no stored position, \<^verbatim>\<open>Data(T1, 5)\<close> followed by
  \<^verbatim>\<open>Data(T2, 6)\<close> leaves the sink of the GraphQL variant, which commits on every data
  event, holding \<^verbatim>\<open>T1\<close> then \<^verbatim>\<open>T2\<close>, and the cursor file holding 6.
\<close>

theorem two_data_events:
  "gql_run [OnMessage (DataMessage \<lparr>cursor = 5::nat, trace = Some [T1]\<rparr>),
            OnMessage (DataMessage \<lparr>cursor = 6, trace = Some [T2]\<rparr>)]
           (gql_started None)
     = \<lparr>pendingActions = [], committedActions = [T1, T2], stream = Some (Some 6),
        history = [Committed T1, Marked 5, Persisted 5, Committed T2, Marked 6, Persisted 6],
        last_cursor_file = Some 6\<rparr>"
  by (simp add: gql_onResult_def gql_commit_assigned [where m = None]
        gql_commit_assigned [where m = "Some 5"] gql_started_def gql_new_def)

section \<open>Error messages\<close>

text \<open>
  C9. Whatever the errors and whether or not they are terminal, \<^verbatim>\<open>onError\<close> of the
  GraphQL variant throws a \<^verbatim>\<open>ReferenceError\<close> for \<^verbatim>\<open>nil\<close> while it evaluates the
  arguments of its first \<^verbatim>\<open>console.log\<close>, and so does the message callback on every
  error message. The engine's state is as it was.
\<close>

theorem onError_throws:
  "gql_onError errors terminal s = (Some (ReferenceError ''nil''), s)
   \<and> gql_onMessage (ErrorMessage errors terminal) s = (Some (ReferenceError ''nil''), s)"
  by (simp add: gql_onError_def resolve_def onError_scope_def)

text \<open>
  C8. The claim has a terminal error stop the engine until it is restarted. The handler
  holds no such state. What holds: an error message, terminal or not, leaves the
  engine's state as it was, so nothing is marked or persisted by it, and the calls
  that follow are handled as if the error had not been delivered.
\<close>

theorem error_leaves_engine_running:
  "snd (gql_onError errors terminal s) = s
   \<and> history (snd (gql_onMessage (ErrorMessage errors terminal) s)) = history s
   \<and> gql_run (OnMessage (ErrorMessage errors terminal) # calls) s = gql_run calls s"
  by (simp add: gql_onError_state)

text \<open>After a terminal error the engine takes the next data event and commits it.\<close>

theorem terminal_error_counterexample:
  "gql_run [OnMessage (ErrorMessage ''socket closed'' True),
            OnMessage (DataMessage \<lparr>cursor = 5::nat, trace = Some [''T1'']\<rparr>)]
           (gql_started None)
     = \<lparr>pendingActions = [], committedActions = [''T1''], stream = Some (Some 5),
        history = [Committed ''T1'', Marked 5, Persisted 5], last_cursor_file = Some 5\<rparr>
   \<and> gql_run [OnMessage (ErrorMessage ''socket closed'' True),
              OnMessage (DataMessage \<lparr>cursor = 5::nat, trace = Some [''T1'']\<rparr>)]
             (gql_started None)
     \<noteq> gql_run [OnMessage (ErrorMessage ''socket closed'' True)] (gql_started None)"
  by (simp add: gql_onError_state gql_onResult_def gql_commit_assigned [where m = None]
        gql_started_def gql_new_def)

section \<open>Pending actions and the last committed block\<close>

lemma bh_step_pending_bound:
  assumes "bh_tagged_call c"
    and "\<forall>a\<in>set (pendingActions s). fst a \<le> lastCommittedBlockNum s"
  shows "\<forall>a\<in>set (pendingActions (snd (bh_step c s))).
           fst a \<le> lastCommittedBlockNum (snd (bh_step c s))"
proof (cases c)
  case OnPostRestart
  then show ?thesis
    by (simp add: bh_onPostRestart_def flushPending_def)
next
  case (OnMessage m)
  show ?thesis
  proof (cases "stream s")
    case None
    with OnMessage assms show ?thesis
      by (cases m)
         (auto simp: bh_onListening_def bh_onProgress_def bh_onAction_def bh_commit_unassigned)
  next
    case (Some mk)
    with OnMessage assms show ?thesis
      by (cases m)
         (auto simp: bh_onListening_def bh_onProgress_def bh_onAction_def bh_commit_assigned)
  qed
qed

lemma bh_run_pending_bound:
  "bh_tagged calls \<Longrightarrow>
   \<forall>a\<in>set (pendingActions s). fst a \<le> lastCommittedBlockNum s \<Longrightarrow>
   \<forall>a\<in>set (pendingActions (bh_run calls s)). fst a \<le> lastCommittedBlockNum (bh_run calls s)"
proof (induction calls arbitrary: s)
  case Nil
  then show ?case by simp
next
  case (Cons c calls)
  from Cons.prems have "bh_tagged_call c" and "bh_tagged calls"
    by (simp_all add: bh_tagged_def)
  with Cons.prems(2) show ?case
    using Cons.IH [of "snd (bh_step c s)"] bh_step_pending_bound [of c s] by simp
qed

text \<open>
  C10. In the block-height variant, after any sequence of messages and reconnections,
  from the engine as constructed or as started, every action still pending occurred
  at a block that is not after \<^verbatim>\<open>lastCommittedBlockNum\<close>. (The actions are paired with
  the block number of the message that brought them.)
\<close>

theorem pending_not_after_last_committed:
  assumes "bh_tagged calls"
  shows "(\<forall>a\<in>set (pendingActions (bh_run calls bh_started)).
            fst a \<le> lastCommittedBlockNum (bh_run calls bh_started))
       \<and> (\<forall>a\<in>set (pendingActions (bh_run calls bh_new)).
            fst a \<le> lastCommittedBlockNum (bh_run calls bh_new))"
  using assms bh_run_pending_bound [of calls bh_started] bh_run_pending_bound [of calls bh_new]
  by (simp add: bh_started_def bh_new_def)

text \<open>
  Two actions of block 5, a progress message at block 10, a late action of block 7, a
  reconnection, and an action of block 10.
\<close>

theorem pending_not_after_last_committed_witness:
  "bh_tagged [OnMessage (ActionTrace 5 (5, ''T1'')), OnMessage (ActionTrace 5 (5, ''T2'')),
              OnMessage (Progress 10), OnMessage (ActionTrace 7 (7, ''T3'')),
              OnPostRestart, OnMessage (ActionTrace 10 (10, ''T4''))]
   \<and> pendingActions (bh_run
        [OnMessage (ActionTrace 5 (5, ''T1'')), OnMessage (ActionTrace 5 (5, ''T2'')),
         OnMessage (Progress 10), OnMessage (ActionTrace 7 (7, ''T3'')),
         OnPostRestart, OnMessage (ActionTrace 10 (10, ''T4''))] bh_started)
       = [(10, ''T4'')]
   \<and> lastCommittedBlockNum (bh_run
        [OnMessage (ActionTrace 5 (5, ''T1'')), OnMessage (ActionTrace 5 (5, ''T2'')),
         OnMessage (Progress 10), OnMessage (ActionTrace 7 (7, ''T3'')),
         OnPostRestart, OnMessage (ActionTrace 10 (10, ''T4''))] bh_started) = 10"
  using pending_not_after_last_committed
    [of "[OnMessage (ActionTrace 5 (5, ''T1'')), OnMessage (ActionTrace 5 (5, ''T2'')),
          OnMessage (Progress 10), OnMessage (ActionTrace 7 (7, ''T3'')),
          OnPostRestart, OnMessage (ActionTrace 10 (10, ''T4''))]"]
  by (simp add: bh_tagged_def bh_onAction_def bh_onProgress_def bh_commit_assigned
        bh_onPostRestart_def flushPending_def bh_started_def bh_new_def)

section \<open>Marked positions and the sink\<close>



lemma sink_behind_Committed [simp]: "sink_behind sunk (map Committed as)"
  by (induction as arbitrary: sunk) simp_all

lemma sunk_positions_append [simp]:
  "sunk_positions (h1 @ h2) = sunk_positions h1 @ sunk_positions h2"
  by (induction h1 rule: sunk_positions.induct) simp_all

lemma sunk_positions_Committed [simp]: "sunk_positions (map Committed as) = map fst as"
  by (induction as) simp_all























lemma marked_positions_append [simp]:
  "marked_positions (h1 @ h2) = marked_positions h1 @ marked_positions h2"
  by (induction h1 rule: marked_positions.induct) simp_all

lemma marked_positions_Committed [simp]: "marked_positions (map Committed as) = []"
  by (induction as) simp_all


lemma mark_behind_Committed [simp]: "mark_behind (map Committed as)"
  by (induction as) simp_all








section \<open>Reconnections lose nothing\<close>

lemma set_takeWhile_append_stop:
  "\<not> P d \<Longrightarrow> set (takeWhile P (del @ d # r)) \<subseteq> set del"
  by (induction del) auto

lemma gql_payloads_append [simp]:
  "gql_payloads (xs @ ys) = gql_payloads xs @ gql_payloads ys"
  by (simp add: gql_payloads_def)

lemma set_gql_payloads:
  "set (gql_payloads xs) = (\<Union>d\<in>set xs. case trace d of None \<Rightarrow> {} | Some acts \<Rightarrow> set acts)"
  by (induction xs) (auto simp: gql_payloads_def split: option.splits)

lemma gql_payloads_mono:
  "set xs \<subseteq> set ys \<Longrightarrow> set (gql_payloads xs) \<subseteq> set (gql_payloads ys)"
  unfolding set_gql_payloads by blast

lemma bh_payloads_mono:
  "set xs \<subseteq> set ys \<Longrightarrow> set (bh_payloads xs) \<subseteq> set (bh_payloads ys)"
  by (auto simp: bh_payloads_def)

lemma gql_inv_start: "gql_session_inv source source (gql_started None)"
  by (simp add: gql_session_inv_def started_simps marker_def gql_payloads_def)

lemma gql_inv_deliver:
  assumes "gql_session_inv source (d # r) s"
  shows "gql_session_inv source r (snd (gql_onResult d s))"
proof -
  from assms obtain del m where
    st: "stream s = Some m" and pe: "pendingActions s = []"
    and src: "source = del @ d # r"
    and sunk: "set (gql_payloads del) \<subseteq> set (committedActions s)"
    and only: "set (committedActions s) \<subseteq> set (gql_payloads source)"
    by (auto simp: gql_session_inv_def)
  let ?acts = "case trace d of None \<Rightarrow> [] | Some acts \<Rightarrow> acts"
  let ?s = "snd (gql_onResult d s)"
  have res: "stream ?s = Some (Some (cursor d))" "pendingActions ?s = []"
    "committedActions ?s = committedActions s @ ?acts"
    using st pe
    by (simp_all add: gql_onResult_def gql_onProgress_def gql_commit_assigned
          split: option.splits)
  have acts: "gql_payloads [d] = ?acts"
    by (simp add: gql_payloads_def)
  have split: "source = (del @ [d]) @ r"
    using src by simp
  have a: "set (gql_payloads (del @ [d])) \<subseteq> set (committedActions ?s)"
    using sunk res(3) acts by auto
  have "set (gql_payloads [d]) \<subseteq> set (gql_payloads source)"
    by (rule gql_payloads_mono) (simp add: src)
  then have b: "set (committedActions ?s) \<subseteq> set (gql_payloads source)"
    using only res(3) acts by auto
  have "set (takeWhile (\<lambda>x. cursor x < cursor d) source) \<subseteq> set del"
    unfolding src by (rule set_takeWhile_append_stop) simp
  then have "set (gql_payloads (takeWhile (\<lambda>x. cursor x < cursor d) source))
             \<subseteq> set (gql_payloads del)"
    by (rule gql_payloads_mono)
  then have c: "set (gql_payloads (takeWhile (\<lambda>x. cursor x < cursor d) source))
             \<subseteq> set (committedActions ?s)"
    using sunk res(3) by auto
  show ?thesis
    unfolding gql_session_inv_def using res(1,2) split a b c
    by (auto simp: marker_def simp del: append_assoc)
qed

lemma gql_inv_reconnect:
  assumes "gql_session_inv source r s"
  shows "gql_session_inv source (resume_from cursor (marker s) source) (gql_onPostRestart s)"
proof -
  let ?s = "gql_onPostRestart s"
  have same: "stream ?s = stream s" "committedActions ?s = committedActions s"
    "marker ?s = marker s" "pendingActions ?s = []"
    by (simp_all add: gql_onPostRestart_def marker_def)
  from assms have st: "stream s \<noteq> None"
    and only: "set (committedActions s) \<subseteq> set (gql_payloads source)"
    and mk: "case marker s of None \<Rightarrow> True
             | Some p \<Rightarrow> set (gql_payloads (takeWhile (\<lambda>d. cursor d < p) source))
                           \<subseteq> set (committedActions s)"
    by (simp_all add: gql_session_inv_def)
  have "\<exists>del. source = del @ resume_from cursor (marker s) source
          \<and> set (gql_payloads del) \<subseteq> set (committedActions s)"
  proof (cases "marker s")
    case None
    then have "source = [] @ resume_from cursor (marker s) source
               \<and> set (gql_payloads []) \<subseteq> set (committedActions s)"
      by (simp add: resume_from_def gql_payloads_def)
    then show ?thesis by blast
  next
    case (Some p)
    with mk have "source = takeWhile (\<lambda>d. cursor d < p) source
                    @ resume_from cursor (marker s) source
               \<and> set (gql_payloads (takeWhile (\<lambda>d. cursor d < p) source))
                    \<subseteq> set (committedActions s)"
      by (simp add: resume_from_def)
    then show ?thesis by blast
  qed
  with st only mk show ?thesis
    unfolding gql_session_inv_def same by simp
qed

lemma gql_inv_session:
  "gql_session_inv source r s \<Longrightarrow> gql_session steps source (r, s) = (r', s') \<Longrightarrow>
   gql_session_inv source r' s'"
proof (induction steps source "(r, s)" arbitrary: r s rule: gql_session.induct)
  case (1 source r s)
  then show ?case by simp
next
  case (2 ts source s)
  then show ?case by simp
next
  case (3 ts source d r s)
  then show ?case using gql_inv_deliver by fastforce
next
  case (4 ts source r s)
  then show ?case using gql_inv_reconnect by fastforce
qed

lemma gql_inv_deliver_all:
  "gql_session_inv source r s \<Longrightarrow> gql_session_inv source [] (gql_deliver_all r s)"
  by (induction r arbitrary: s) (simp_all add: gql_inv_deliver)

lemma gql_inv_consume: "gql_session_inv source [] (gql_consume steps source)"
proof -
  obtain r s where rs: "gql_session steps source (source, gql_started None) = (r, s)"
    by (cases "gql_session steps source (source, gql_started None)")
  from gql_inv_session [OF gql_inv_start rs] have "gql_session_inv source r s" .
  then show ?thesis
    using rs by (simp add: gql_consume_def gql_inv_deliver_all)
qed

lemma bh_inv_start: "bh_session_inv source source bh_started"
  by (simp add: bh_session_inv_def started_simps marker_def bh_payloads_def)

lemma bh_inv_deliver:
  assumes "bh_session_inv source (d # r) s"
  shows "bh_session_inv source r (snd (bh_onAction (fst d) (snd d) s))"
proof -
  from assms obtain del m where
    st: "stream s = Some m"
    and src: "source = del @ d # r"
    and held: "set (bh_payloads del) \<subseteq> set (committedActions s) \<union> set (pendingActions s)"
    and only: "set (committedActions s) \<union> set (pendingActions s) \<subseteq> set (bh_payloads source)"
    and mk: "case marker s of None \<Rightarrow> True
             | Some p \<Rightarrow> set (bh_payloads (takeWhile (\<lambda>d. fst d < p) source))
                           \<subseteq> set (committedActions s)"
    by (auto simp: bh_session_inv_def)
  let ?s = "snd (bh_onAction (fst d) (snd d) s)"
  have split: "source = (del @ [d]) @ r"
    using src by simp
  have here: "snd d \<in> set (bh_payloads source)"
    by (simp add: src bh_payloads_def)
  show ?thesis
  proof (cases "fst d > lastCommittedBlockNum s")
    case True
    then have res: "stream ?s = Some (Some (fst d))" "pendingActions ?s = [snd d]"
      "committedActions ?s = committedActions s @ pendingActions s"
      using st by (simp_all add: bh_onAction_def bh_commit_assigned)
    have a: "set (bh_payloads (del @ [d]))
             \<subseteq> set (committedActions ?s) \<union> set (pendingActions ?s)"
      using held res by (auto simp: bh_payloads_def)
    have b: "set (committedActions ?s) \<union> set (pendingActions ?s) \<subseteq> set (bh_payloads source)"
      using only here res by auto
    have "set (takeWhile (\<lambda>x. fst x < fst d) source) \<subseteq> set del"
      unfolding src by (rule set_takeWhile_append_stop) simp
    then have "set (bh_payloads (takeWhile (\<lambda>x. fst x < fst d) source))
               \<subseteq> set (bh_payloads del)"
      by (rule bh_payloads_mono)
    then have c: "set (bh_payloads (takeWhile (\<lambda>x. fst x < fst d) source))
               \<subseteq> set (committedActions ?s)"
      using held res(3) by auto
    show ?thesis
      unfolding bh_session_inv_def using res(1) split a b c
      by (auto simp: marker_def simp del: append_assoc)
  next
    case False
    then have res: "stream ?s = stream s" "pendingActions ?s = pendingActions s @ [snd d]"
      "committedActions ?s = committedActions s"
      by (simp_all add: bh_onAction_def)
    have a: "set (bh_payloads (del @ [d]))
             \<subseteq> set (committedActions ?s) \<union> set (pendingActions ?s)"
      using held res by (auto simp: bh_payloads_def)
    have b: "set (committedActions ?s) \<union> set (pendingActions ?s) \<subseteq> set (bh_payloads source)"
      using only here res by auto
    have c: "case marker ?s of None \<Rightarrow> True
             | Some p \<Rightarrow> set (bh_payloads (takeWhile (\<lambda>d. fst d < p) source))
                           \<subseteq> set (committedActions ?s)"
      using mk res by (simp add: marker_def split: option.splits)
    show ?thesis
      unfolding bh_session_inv_def using res(1) st split a b c
      by (auto simp del: append_assoc)
  qed
qed

lemma bh_inv_reconnect:
  assumes "bh_session_inv source r s"
  shows "bh_session_inv source (resume_from fst (marker s) source) (bh_onPostRestart s)"
proof -
  let ?s = "bh_onPostRestart s"
  have same: "stream ?s = stream s" "committedActions ?s = committedActions s"
    "marker ?s = marker s" "pendingActions ?s = []"
    by (simp_all add: bh_onPostRestart_def flushPending_def marker_def)
  from assms have st: "stream s \<noteq> None"
    and only: "set (committedActions s) \<subseteq> set (bh_payloads source)"
    and mk: "case marker s of None \<Rightarrow> True
             | Some p \<Rightarrow> set (bh_payloads (takeWhile (\<lambda>d. fst d < p) source))
                           \<subseteq> set (committedActions s)"
    by (simp_all add: bh_session_inv_def)
  have "\<exists>del. source = del @ resume_from fst (marker s) source
          \<and> set (bh_payloads del) \<subseteq> set (committedActions s)"
  proof (cases "marker s")
    case None
    then have "source = [] @ resume_from fst (marker s) source
               \<and> set (bh_payloads []) \<subseteq> set (committedActions s)"
      by (simp add: resume_from_def bh_payloads_def)
    then show ?thesis by blast
  next
    case (Some p)
    with mk have "source = takeWhile (\<lambda>d. fst d < p) source
                    @ resume_from fst (marker s) source
               \<and> set (bh_payloads (takeWhile (\<lambda>d. fst d < p) source))
                    \<subseteq> set (committedActions s)"
      by (simp add: resume_from_def)
    then show ?thesis by blast
  qed
  with st only mk show ?thesis
    unfolding bh_session_inv_def same by simp
qed

lemma bh_inv_session:
  "bh_session_inv source r s \<Longrightarrow> bh_session steps source (r, s) = (r', s') \<Longrightarrow>
   bh_session_inv source r' s'"
proof (induction steps source "(r, s)" arbitrary: r s rule: bh_session.induct)
  case (1 source r s)
  then show ?case by simp
next
  case (2 ts source s)
  then show ?case by simp
next
  case (3 ts source d r s)
  then show ?case using bh_inv_deliver by fastforce
next
  case (4 ts source r s)
  then show ?case using bh_inv_reconnect by fastforce
qed

lemma bh_inv_deliver_all:
  "bh_session_inv source r s \<Longrightarrow> bh_session_inv source [] (bh_deliver_all r s)"
  by (induction r arbitrary: s) (simp_all add: bh_inv_deliver)

lemma bh_inv_consume: "bh_session_inv source [] (bh_consume steps source)"
proof -
  obtain r s where rs: "bh_session steps source (source, bh_started) = (r, s)"
    by (cases "bh_session steps source (source, bh_started)")
  from bh_inv_session [OF bh_inv_start rs] have "bh_session_inv source r s" .
  then show ?thesis
    using rs by (simp add: bh_consume_def bh_inv_deliver_all)
qed

lemma filter_below_at:
  "sorted (map fst xs) \<Longrightarrow> list_all (\<lambda>d. fst d \<le> L) xs \<Longrightarrow>
   filter (\<lambda>d. fst d < L) xs @ filter (\<lambda>d. fst d = (L::nat)) xs = xs"
proof (induction xs)
  case Nil
  then show ?case by simp
next
  case (Cons x xs)
  show ?case
  proof (cases "fst x < L")
    case True
    with Cons show ?thesis by simp
  next
    case False
    with Cons.prems have eq: "fst x = L" by simp
    have "\<forall>y\<in>set xs. fst y = L"
    proof
      fix y assume "y \<in> set xs"
      with Cons.prems eq have "fst y \<le> L" "L \<le> fst y"
        by (auto simp: list_all_iff)
      then show "fst y = L" by simp
    qed
    then have "filter (\<lambda>d. fst d < L) xs = []" "filter (\<lambda>d. fst d = L) xs = xs"
      by (simp_all add: filter_empty_conv filter_id_conv)
    with eq show ?thesis by simp
  qed
qed

lemma dropWhile_sorted_above:
  "sorted (map fst xs) \<Longrightarrow> list_all (\<lambda>d. (L::nat) \<le> fst d) (dropWhile (\<lambda>d. fst d < L) xs)"
proof (induction xs)
  case Nil
  then show ?case by simp
next
  case (Cons x xs)
  then show ?case
    by (auto simp: list_all_iff)
qed

lemma takeWhile_below:
  "list_all (\<lambda>d. fst d \<le> (L::nat)) (takeWhile (\<lambda>d. fst d < L) xs)"
  by (induction xs) auto

lemma filter_at_takeWhile_below:
  "filter (\<lambda>d. fst d = (L::nat)) (takeWhile (\<lambda>d. fst d < L) xs) = []"
  by (induction xs) auto

lemma bh_ordered_start: "bh_ordered_inv source source bh_started"
  by (simp add: bh_ordered_inv_def started_simps marker_def bh_payloads_def list_all_iff)

lemma bh_ordered_deliver:
  assumes srt: "sorted (map fst source)" and inv: "bh_ordered_inv source (d # r) s"
  shows "bh_ordered_inv source r (snd (bh_onAction (fst d) (snd d) s))"
proof -
  let ?L = "lastCommittedBlockNum s"
  let ?s = "snd (bh_onAction (fst d) (snd d) s)"
  from inv have st0: "stream s \<noteq> None"
    and ex: "\<exists>del. source = del @ d # r
               \<and> pendingActions s = bh_payloads (filter (\<lambda>x. fst x = ?L) del)
               \<and> list_all (\<lambda>x. fst x \<le> ?L) del"
    and above: "list_all (\<lambda>x. ?L \<le> fst x) (d # r)"
    and co: "committedActions s = bh_payloads (filter (\<lambda>x. fst x < ?L) source)"
    and mk: "marker s = None \<and> ?L = 0 \<or> marker s = Some ?L"
    and orig: "?L = 0 \<or> ?L \<in> fst ` set source"
    by (simp_all add: bh_ordered_inv_def)
  from st0 obtain m where st: "stream s = Some m"
    by auto
  from ex obtain del where src: "source = del @ d # r"
    and pe: "pendingActions s = bh_payloads (filter (\<lambda>x. fst x = ?L) del)"
    and below: "list_all (\<lambda>x. fst x \<le> ?L) del"
    by blast
  from srt src have sdel: "sorted (map fst del)"
    and after: "\<forall>x\<in>set r. fst d \<le> fst x"
    by (auto simp: sorted_append)
  have split: "source = (del @ [d]) @ r"
    using src by simp
  show ?thesis
  proof (cases "fst d > ?L")
    case True
    then have res: "stream ?s = Some (Some (fst d))" "pendingActions ?s = [snd d]"
      "committedActions ?s = committedActions s @ pendingActions s"
      "lastCommittedBlockNum ?s = fst d"
      using st by (simp_all add: bh_onAction_def bh_commit_assigned)
    have del_lt: "\<forall>x\<in>set del. fst x < fst d"
      using below True by (auto simp: list_all_iff)
    have "filter (\<lambda>x. fst x < ?L) source = filter (\<lambda>x. fst x < ?L) del"
      using above by (auto simp: src list_all_iff filter_empty_conv)
    then have "committedActions ?s
               = bh_payloads (filter (\<lambda>x. fst x < ?L) del @ filter (\<lambda>x. fst x = ?L) del)"
      using res(3) co pe by (simp add: bh_payloads_def)
    then have c1: "committedActions ?s = bh_payloads del"
      using filter_below_at [OF sdel below] by simp
    have "filter (\<lambda>x. fst x < fst d) source = del"
      using del_lt after by (auto simp: src filter_empty_conv filter_id_conv)
    with c1 have a: "committedActions ?s
                     = bh_payloads (filter (\<lambda>x. fst x < lastCommittedBlockNum ?s) source)"
      by (simp add: res(4))
    have "filter (\<lambda>x. fst x = fst d) del = []"
      using del_lt by (auto simp: filter_empty_conv)
    then have b: "pendingActions ?s
                  = bh_payloads (filter (\<lambda>x. fst x = lastCommittedBlockNum ?s) (del @ [d]))"
      by (simp add: res bh_payloads_def)
    have c: "list_all (\<lambda>x. fst x \<le> lastCommittedBlockNum ?s) (del @ [d])"
      using del_lt by (auto simp: res(4) list_all_iff)
    have e: "list_all (\<lambda>x. lastCommittedBlockNum ?s \<le> fst x) r"
      using after by (simp add: res(4) list_all_iff)
    have f: "lastCommittedBlockNum ?s \<in> fst ` set source"
      by (simp add: res(4) src)
    have g: "marker ?s = Some (lastCommittedBlockNum ?s)"
      by (simp add: marker_def res)
    show ?thesis
      unfolding bh_ordered_inv_def using res(1) split a b c e f g
      by (auto simp del: append_assoc)
  next
    case False
    with above have eq: "fst d = ?L"
      by simp
    have res: "stream ?s = stream s" "pendingActions ?s = pendingActions s @ [snd d]"
      "committedActions ?s = committedActions s"
      "lastCommittedBlockNum ?s = ?L" "marker ?s = marker s"
      using False by (simp_all add: bh_onAction_def marker_def)
    have b: "pendingActions s @ [snd d] = bh_payloads (filter (\<lambda>x. fst x = ?L) (del @ [d]))"
      using pe eq by (simp add: bh_payloads_def)
    have c: "list_all (\<lambda>x. fst x \<le> ?L) (del @ [d])"
      using below eq by simp
    have e: "list_all (\<lambda>x. ?L \<le> fst x) r"
      using above by simp
    show ?thesis
      unfolding bh_ordered_inv_def res using st split b c e co mk orig
      by (auto simp del: append_assoc)
  qed
qed

lemma bh_ordered_reconnect:
  assumes srt: "sorted (map fst source)" and inv: "bh_ordered_inv source r s"
  shows "bh_ordered_inv source (resume_from fst (marker s) source) (bh_onPostRestart s)"
proof -
  let ?L = "lastCommittedBlockNum s"
  let ?s = "bh_onPostRestart s"
  have same: "stream ?s = stream s" "committedActions ?s = committedActions s"
    "marker ?s = marker s" "pendingActions ?s = []" "lastCommittedBlockNum ?s = ?L"
    by (simp_all add: bh_onPostRestart_def flushPending_def marker_def)
  from inv have st: "stream s \<noteq> None"
    and co: "committedActions s = bh_payloads (filter (\<lambda>x. fst x < ?L) source)"
    and mk: "marker s = None \<and> ?L = 0 \<or> marker s = Some ?L"
    and orig: "?L = 0 \<or> ?L \<in> fst ` set source"
    by (simp_all add: bh_ordered_inv_def)
  have "(\<exists>del. source = del @ resume_from fst (marker s) source
          \<and> [] = bh_payloads (filter (\<lambda>d. fst d = ?L) del)
          \<and> list_all (\<lambda>d. fst d \<le> ?L) del)
        \<and> list_all (\<lambda>d. ?L \<le> fst d) (resume_from fst (marker s) source)"
  proof (cases "marker s")
    case None
    with mk have "?L = 0" by simp
    with None have "source = [] @ resume_from fst (marker s) source
        \<and> [] = bh_payloads (filter (\<lambda>d. fst d = ?L) [])
        \<and> list_all (\<lambda>d. fst d \<le> ?L) []
        \<and> list_all (\<lambda>d. ?L \<le> fst d) (resume_from fst (marker s) source)"
      by (simp add: resume_from_def bh_payloads_def list_all_iff)
    then show ?thesis by blast
  next
    case (Some p)
    with mk have p: "p = ?L" by simp
    have "source = takeWhile (\<lambda>d. fst d < ?L) source @ resume_from fst (marker s) source
        \<and> [] = bh_payloads (filter (\<lambda>d. fst d = ?L) (takeWhile (\<lambda>d. fst d < ?L) source))
        \<and> list_all (\<lambda>d. fst d \<le> ?L) (takeWhile (\<lambda>d. fst d < ?L) source)
        \<and> list_all (\<lambda>d. ?L \<le> fst d) (resume_from fst (marker s) source)"
      using dropWhile_sorted_above [OF srt, of ?L] takeWhile_below [of ?L source]
      by (simp add: Some p resume_from_def filter_at_takeWhile_below bh_payloads_def)
    then show ?thesis by blast
  qed
  with st co mk orig show ?thesis
    unfolding bh_ordered_inv_def same by simp
qed

lemma bh_ordered_session:
  "sorted (map fst source) \<Longrightarrow> bh_ordered_inv source r s \<Longrightarrow>
   bh_session steps source (r, s) = (r', s') \<Longrightarrow> bh_ordered_inv source r' s'"
proof (induction steps source "(r, s)" arbitrary: r s rule: bh_session.induct)
  case (1 source r s)
  then show ?case by simp
next
  case (2 ts source s)
  then show ?case by simp
next
  case (3 ts source d r s)
  then show ?case using bh_ordered_deliver by fastforce
next
  case (4 ts source r s)
  then show ?case using bh_ordered_reconnect by fastforce
qed

lemma bh_ordered_deliver_all:
  "sorted (map fst source) \<Longrightarrow> bh_ordered_inv source r s \<Longrightarrow>
   bh_ordered_inv source [] (bh_deliver_all r s)"
  by (induction r arbitrary: s) (simp_all add: bh_ordered_deliver)

lemma bh_ordered_consume:
  assumes "sorted (map fst source)"
  shows "bh_ordered_inv source [] (bh_consume steps source)"
proof -
  obtain r s where rs: "bh_session steps source (source, bh_started) = (r, s)"
    by (cases "bh_session steps source (source, bh_started)")
  from bh_ordered_session [OF assms bh_ordered_start rs] have "bh_ordered_inv source r s" .
  then show ?thesis
    using rs assms by (simp add: bh_consume_def bh_ordered_deliver_all)
qed

lemma bh_ordered_last_block:
  assumes srt: "sorted (map fst source)"
    and below: "list_all (\<lambda>d. fst d \<le> (L::nat)) source"
    and orig: "L = 0 \<or> L \<in> fst ` set source"
  shows "L = (if source = [] then 0 else fst (last source))"
proof (cases "source = []")
  case True
  with orig show ?thesis by simp
next
  case False
  then have mem: "last source \<in> set source" by simp
  with below have le: "fst (last source) \<le> L"
    by (auto simp: list_all_iff)
  have "\<forall>x\<in>set source. fst x \<le> fst (last source)"
  proof
    fix x assume "x \<in> set source"
    then obtain xs ys where "source = xs @ x # ys"
      by (auto simp: in_set_conv_decomp)
    with srt show "fst x \<le> fst (last source)"
      by (cases ys rule: rev_cases) (auto simp: sorted_append)
  qed
  with orig le have "L = fst (last source)"
    by force
  with False show ?thesis by simp
qed

lemma bh_consume_exact:
  assumes "sorted (map fst source)"
  shows "lastCommittedBlockNum (bh_consume steps source)
           = (if source = [] then 0 else fst (last source))
       \<and> committedActions (bh_consume steps source)
           = bh_payloads (filter (\<lambda>d. fst d < lastCommittedBlockNum (bh_consume steps source))
               source)
       \<and> pendingActions (bh_consume steps source)
           = bh_payloads (filter (\<lambda>d. fst d = lastCommittedBlockNum (bh_consume steps source))
               source)"
proof -
  let ?F = "bh_consume steps source"
  from bh_ordered_consume [OF assms, of steps]
  have pe: "pendingActions ?F = bh_payloads (filter (\<lambda>d. fst d = lastCommittedBlockNum ?F) source)"
    and below: "list_all (\<lambda>d. fst d \<le> lastCommittedBlockNum ?F) source"
    and co: "committedActions ?F
             = bh_payloads (filter (\<lambda>d. fst d < lastCommittedBlockNum ?F) source)"
    and orig: "lastCommittedBlockNum ?F = 0 \<or> lastCommittedBlockNum ?F \<in> fst ` set source"
    by (simp_all add: bh_ordered_inv_def)
  from bh_ordered_last_block [OF assms below orig] pe co show ?thesis
    by simp
qed

text \<open>
  C2. The claim has the sink alone hold, in the end, every payload of the source. In
  the block-height variant the actions of the last block of the source are never
  sunk: they wait in the pending buffer for a later block or a progress message.
  What holds, for every finite source and every placement of reconnections:
  \<^item> in the GraphQL variant the payloads in the sink are, as a set, exactly those of
    the source, and nothing is pending;
  \<^item> in the block-height variant the payloads in the sink together with those pending
    are, as a set, exactly those of the source; and when the source is sorted by
    block number, as a chain delivers it, the sink holds exactly the actions of every
    block before the last block of the source, in source order and once each, and the
    pending buffer holds exactly the actions of that last block.
\<close>

theorem no_gap:
  "set (committedActions (gql_consume steps source)) = set (gql_payloads source)
   \<and> pendingActions (gql_consume steps source) = []
   \<and> set (committedActions (bh_consume steps' source'))
       \<union> set (pendingActions (bh_consume steps' source')) = set (bh_payloads source')
   \<and> (sorted (map fst source') \<longrightarrow>
        lastCommittedBlockNum (bh_consume steps' source')
          = (if source' = [] then 0 else fst (last source'))
        \<and> committedActions (bh_consume steps' source')
          = bh_payloads
              (filter (\<lambda>d. fst d < lastCommittedBlockNum (bh_consume steps' source')) source')
        \<and> pendingActions (bh_consume steps' source')
          = bh_payloads
              (filter (\<lambda>d. fst d = lastCommittedBlockNum (bh_consume steps' source')) source'))"
  using gql_inv_consume [of source steps] bh_inv_consume [of source' steps']
    bh_consume_exact [of source' steps']
  by (auto simp: gql_session_inv_def bh_session_inv_def)

text \<open>
  Three transactions with two reconnections for the GraphQL variant, where the
  inclusive redelivery sinks \<^verbatim>\<open>T2\<close> and \<^verbatim>\<open>T3\<close> three times; four actions in three
  blocks with two reconnections for the block-height variant.
\<close>

theorem no_gap_witness:
  "committedActions (gql_consume [Deliver, Deliver, Reconnect, Deliver, Reconnect]
      [\<lparr>cursor = 5::nat, trace = Some [''T1'']\<rparr>, \<lparr>cursor = 6, trace = Some [''T2'', ''T3'']\<rparr>,
       \<lparr>cursor = 8, trace = Some [''T4'']\<rparr>])
     = [''T1'', ''T2'', ''T3'', ''T2'', ''T3'', ''T2'', ''T3'', ''T4'']
   \<and> set (committedActions (gql_consume [Deliver, Deliver, Reconnect, Deliver, Reconnect]
      [\<lparr>cursor = 5::nat, trace = Some [''T1'']\<rparr>, \<lparr>cursor = 6, trace = Some [''T2'', ''T3'']\<rparr>,
       \<lparr>cursor = 8, trace = Some [''T4'']\<rparr>]))
     = set (gql_payloads
      [\<lparr>cursor = 5::nat, trace = Some [''T1'']\<rparr>, \<lparr>cursor = 6, trace = Some [''T2'', ''T3'']\<rparr>,
       \<lparr>cursor = 8, trace = Some [''T4'']\<rparr>])
   \<and> gql_payloads
      [\<lparr>cursor = 5::nat, trace = Some [''T1'']\<rparr>, \<lparr>cursor = 6, trace = Some [''T2'', ''T3'']\<rparr>,
       \<lparr>cursor = 8, trace = Some [''T4'']\<rparr>]
     = [''T1'', ''T2'', ''T3'', ''T4'']
   \<and> sorted (map fst [(5::nat, ''T1''), (5, ''T2''), (6, ''T3''), (8, ''T4'')])
   \<and> lastCommittedBlockNum
        (bh_consume [Deliver, Deliver, Reconnect, Deliver, Deliver, Reconnect]
           [(5, ''T1''), (5, ''T2''), (6, ''T3''), (8, ''T4'')]) = 8
   \<and> committedActions (bh_consume [Deliver, Deliver, Reconnect, Deliver, Deliver, Reconnect]
      [(5, ''T1''), (5, ''T2''), (6, ''T3''), (8, ''T4'')])
     = [''T1'', ''T2'', ''T3'']
   \<and> pendingActions (bh_consume [Deliver, Deliver, Reconnect, Deliver, Deliver, Reconnect]
      [(5, ''T1''), (5, ''T2''), (6, ''T3''), (8, ''T4'')])
     = [''T4'']"
  using no_gap
    [of "[Deliver, Deliver, Reconnect, Deliver, Reconnect]"
        "[\<lparr>cursor = 5::nat, trace = Some [''T1'']\<rparr>, \<lparr>cursor = 6, trace = Some [''T2'', ''T3'']\<rparr>,
          \<lparr>cursor = 8, trace = Some [''T4'']\<rparr>]"
        "[Deliver, Deliver, Reconnect, Deliver, Deliver, Reconnect]"
        "[(5, ''T1''), (5, ''T2''), (6, ''T3''), (8, ''T4'')]"]
  by (simp add: gql_consume_def bh_consume_def resume_from_def marker_def
        gql_onResult_def gql_commit_assigned gql_onPostRestart_def
        bh_onAction_def bh_commit_assigned bh_onPostRestart_def flushPending_def
        gql_started_def gql_new_def bh_started_def gql_payloads_def bh_payloads_def)

text \<open>
  With or without a reconnection, the single action of a one-action source is pending
  at the end of the block-height variant's run and its sink is empty.
\<close>

theorem last_block_unsunk_counterexample:
  "bh_consume [] [(5, ''T1'')]
     = \<lparr>pendingActions = [''T1''], committedActions = [], stream = Some (Some 5),
        history = [Marked 5], lastCommittedBlockNum = 5\<rparr>
   \<and> bh_consume [Deliver, Reconnect] [(5, ''T1'')]
     = \<lparr>pendingActions = [''T1''], committedActions = [], stream = Some (Some 5),
        history = [Marked 5], lastCommittedBlockNum = 5\<rparr>
   \<and> set (committedActions (bh_consume [] [(5, ''T1'')])) \<noteq> set (bh_payloads [(5, ''T1'')])
   \<and> set (committedActions (bh_consume [Deliver, Reconnect] [(5, ''T1'')]))
       \<noteq> set (bh_payloads [(5, ''T1'')])"
  by (simp add: bh_consume_def resume_from_def marker_def bh_payloads_def
        bh_onAction_def bh_commit_assigned bh_onPostRestart_def flushPending_def
        bh_started_def)

section \<open>Reconnect\<close>

text \<open>
  C4. Whatever the pending buffer holds, the reconnect hook of either variant leaves
  it empty and does nothing else: nothing is appended to the sink, nothing is marked,
  nothing is persisted, and the last committed block is left alone.
\<close>

theorem reconnect_flushes_without_commit:
  "pendingActions (gql_onPostRestart s) = []
   \<and> gql_onPostRestart s = s\<lparr>pendingActions := []\<rparr>
   \<and> committedActions (gql_onPostRestart s) = committedActions s
   \<and> stream (gql_onPostRestart s) = stream s
   \<and> last_cursor_file (gql_onPostRestart s) = last_cursor_file s
   \<and> history (gql_onPostRestart s) = history s
   \<and> pendingActions (bh_onPostRestart t) = []
   \<and> bh_onPostRestart t = t\<lparr>pendingActions := []\<rparr>
   \<and> committedActions (bh_onPostRestart t) = committedActions t
   \<and> stream (bh_onPostRestart t) = stream t
   \<and> lastCommittedBlockNum (bh_onPostRestart t) = lastCommittedBlockNum t
   \<and> history (bh_onPostRestart t) = history t"
  by (simp add: gql_onPostRestart_def bh_onPostRestart_def flushPending_def)

end
